theory Spec2Isabelle
  imports Main
begin

section \<open>Python values used by scripts/chess.py\<close>

text \<open>
  The script works on Python \<open>str\<close> and \<open>list\<close> values. A character is modelled as an
  Isabelle \<open>char\<close>, read as the Unicode code point below 256 with the same number
  (Latin-1); strings holding code points from 256 on are outside the model. The
  predicates below are Python's \<open>str.isupper\<close>, \<open>str.lower\<close> and \<open>str.isspace\<close> on
  one such character.

  Exceptions are values: a function that can raise returns \<open>py_error + 'a\<close>.
\<close>

datatype py_error = IndexError | ValueError

definition isupper :: "char \<Rightarrow> bool" where
  "isupper ch =
     (let n = (of_char ch :: nat)
      in (65 \<le> n \<and> n \<le> 90) \<or> (192 \<le> n \<and> n \<le> 222 \<and> n \<noteq> 215))"

definition lower_chr :: "char \<Rightarrow> char" where
  "lower_chr ch = (if isupper ch then char_of ((of_char ch :: nat) + 32) else ch)"

definition isspace :: "char \<Rightarrow> bool" where
  "isspace ch =
     (let n = (of_char ch :: nat)
      in (9 \<le> n \<and> n \<le> 13) \<or> (28 \<le> n \<and> n \<le> 32) \<or> n = 133 \<or> n = 160)"

definition lower :: "string \<Rightarrow> string" where
  "lower s = map lower_chr s"

definition strip :: "string \<Rightarrow> string" where
  "strip s = rev (dropWhile isspace (rev (dropWhile isspace s)))"

definition remove_spaces :: "string \<Rightarrow> string" where
  \<comment> \<open>\<open>s.replace(" ", "")\<close>\<close>
  "remove_spaces s = filter (\<lambda>ch. ch \<noteq> CHR '' '') s"

text \<open>
  \<open>xs[i]\<close> on a list: an index below zero counts from the end, and an index outside
  \<open>-len(xs) .. len(xs) - 1\<close> raises \<open>IndexError\<close>.
\<close>

definition py_index :: "'a list \<Rightarrow> int \<Rightarrow> py_error + 'a" where
  "py_index xs i =
     (if i < 0
      then (if - i \<le> int (length xs) then Inr (xs ! nat (int (length xs) + i))
            else Inl IndexError)
      else (if i < int (length xs) then Inr (xs ! nat i) else Inl IndexError))"

text \<open>\<open>xs[i] = v\<close> on a list, with the same index rule.\<close>

definition py_store :: "'a list \<Rightarrow> int \<Rightarrow> 'a \<Rightarrow> py_error + 'a list" where
  "py_store xs i v =
     (if i < 0
      then (if - i \<le> int (length xs) then Inr (xs[nat (int (length xs) + i) := v])
            else Inl IndexError)
      else (if i < int (length xs) then Inr (xs[nat i := v]) else Inl IndexError))"

text \<open>
  \<open>s.index(ch)\<close> for a one-character \<open>ch\<close>: the first position, \<open>ValueError\<close> when
  there is none.
\<close>

fun str_index :: "string \<Rightarrow> char \<Rightarrow> py_error + int" where
  "str_index [] ch = Inl ValueError"
| "str_index (a # s) ch =
     (if a = ch then Inr 0
      else (case str_index s ch of Inl e \<Rightarrow> Inl e | Inr i \<Rightarrow> Inr (i + 1)))"

text \<open>\<open>int(ch)\<close> for a one-character string.\<close>

definition py_int :: "char \<Rightarrow> py_error + int" where
  "py_int ch =
     (let n = (of_char ch :: nat)
      in if 48 \<le> n \<and> n \<le> 57 then Inr (int n - 48) else Inl ValueError)"

section \<open>The board\<close>

type_synonym board = "char list list"
type_synonym square = "int \<times> int"

definition FILES :: string where
  "FILES = ''abcdefgh''"

definition RANKS :: string where
  "RANKS = ''12345678''"

definition new_board :: board where
  "new_board =
     [''rnbqkbnr'', ''pppppppp'', ''........'', ''........'',
      ''........'', ''........'', ''PPPPPPPP'', ''RNBQKBNR'']"

datatype side = W | B

definition color :: "char \<Rightarrow> side option" where
  "color piece =
     (if piece = CHR ''.'' then None else if isupper piece then Some W else Some B)"

definition in_bounds :: "int \<Rightarrow> int \<Rightarrow> bool" where
  "in_bounds x y = (0 \<le> x \<and> x < 8 \<and> 0 \<le> y \<and> y < 8)"

text \<open>The expression \<open>board[y][x]\<close>: the row first, then the column.\<close>

definition piece_at :: "board \<Rightarrow> int \<Rightarrow> int \<Rightarrow> py_error + char" where
  "piece_at b x y = (case py_index b y of Inl e \<Rightarrow> Inl e | Inr row \<Rightarrow> py_index row x)"


text \<open>A board as \<open>new_board\<close> builds it: eight rows of eight cells.\<close>

definition wf_board :: "board \<Rightarrow> bool" where
  "wf_board b = (length b = 8 \<and> list_all (\<lambda>row. length row = 8) b)"

section \<open>Move generation\<close>

text \<open>
  \<open>moves_for\<close> keeps its result list \<open>res\<close> in a local that the nested functions \<open>add\<close>
  and \<open>ray\<close> append to, and reads the caller's \<open>board\<close> object. Both are threaded
  through the model as a \<open>frame\<close>; every function returns the frame it leaves.
  A loop that need not end returns \<open>None\<close>.
\<close>

record frame =
  board :: board
  res :: "square list"

definition append_res :: "square \<Rightarrow> frame \<Rightarrow> frame" where
  \<comment> \<open>\<open>res.append((nx, ny))\<close>\<close>
  "append_res s f = f\<lparr>res := res f @ [s]\<rparr>"

definition add :: "side \<Rightarrow> int \<Rightarrow> int \<Rightarrow> frame \<Rightarrow> py_error + bool \<times> frame" where
  "add c nx ny f =
     (if \<not> in_bounds nx ny then Inr (False, f)
      else
        (case piece_at (board f) nx ny of
           Inl e \<Rightarrow> Inl e
         | Inr target \<Rightarrow>
             if target \<noteq> CHR ''.'' \<and> color target = Some c then Inr (False, f)
             else Inr (target = CHR ''.'', append_res (nx, ny) f)))"

partial_function (option) ray_loop ::
  "side \<Rightarrow> int \<Rightarrow> int \<Rightarrow> int \<Rightarrow> int \<Rightarrow> frame \<Rightarrow> (py_error + frame) option" where
  "ray_loop c dx dy nx ny f =
     (if in_bounds nx ny then
        (case piece_at (board f) nx ny of
           Inl e \<Rightarrow> Some (Inl e)
         | Inr target \<Rightarrow>
             if target \<noteq> CHR ''.'' \<and> color target = Some c then Some (Inr f)
             else if target \<noteq> CHR ''.'' then Some (Inr (append_res (nx, ny) f))
             else ray_loop c dx dy (nx + dx) (ny + dy) (append_res (nx, ny) f))
      else Some (Inr f))"

declare ray_loop.simps [code]

definition ray ::
  "side \<Rightarrow> int \<Rightarrow> int \<Rightarrow> int \<Rightarrow> int \<Rightarrow> frame \<Rightarrow> (py_error + frame) option" where
  "ray c x y dx dy f = ray_loop c dx dy (x + dx) (y + dy) f"

text \<open>Consecutive calls of \<open>ray\<close> and of \<open>add\<close>; an exception ends the sequence.\<close>

fun rays ::
  "side \<Rightarrow> int \<Rightarrow> int \<Rightarrow> (int \<times> int) list \<Rightarrow> frame \<Rightarrow> (py_error + frame) option" where
  "rays c x y [] f = Some (Inr f)"
| "rays c x y ((dx, dy) # ds) f =
     (case ray c x y dx dy f of
        None \<Rightarrow> None
      | Some (Inl e) \<Rightarrow> Some (Inl e)
      | Some (Inr f') \<Rightarrow> rays c x y ds f')"

fun adds :: "side \<Rightarrow> int \<Rightarrow> int \<Rightarrow> (int \<times> int) list \<Rightarrow> frame \<Rightarrow> py_error + frame" where
  "adds c x y [] f = Inr f"
| "adds c x y ((dx, dy) # ds) f =
     (case add c (x + dx) (y + dy) f of
        Inl e \<Rightarrow> Inl e
      | Inr (_, f') \<Rightarrow> adds c x y ds f')"

definition knight_offsets :: "(int \<times> int) list" where
  "knight_offsets = [(1, 2), (2, 1), (-1, 2), (-2, 1), (1, -2), (2, -1), (-1, -2), (-2, -1)]"

definition king_offsets :: "(int \<times> int) list" where
  \<comment> \<open>the two nested loops over \<open>(-1, 0, 1)\<close>, skipping \<open>(0, 0)\<close>\<close>
  "king_offsets =
     filter (\<lambda>(dx, dy). \<not> (dx = 0 \<and> dy = 0)) (List.product [-1, 0, 1] [-1, 0, 1])"

definition diagonals :: "(int \<times> int) list" where
  "diagonals = [(1, 1), (1, -1), (-1, 1), (-1, -1)]"

definition orthogonals :: "(int \<times> int) list" where
  "orthogonals = [(1, 0), (-1, 0), (0, 1), (0, -1)]"

text \<open>The pawn's forward steps (lines 67 to 72 of the script).\<close>

definition pawn_forward :: "side \<Rightarrow> int \<Rightarrow> int \<Rightarrow> frame \<Rightarrow> py_error + frame" where
  "pawn_forward c x y f =
     (let direction = (if c = W then - 1 else 1);
          start_row = (if c = W then 6 else 1);
          one = y + direction
      in if in_bounds x one then
           (case piece_at (board f) x one of
              Inl e \<Rightarrow> Inl e
            | Inr t1 \<Rightarrow>
                if t1 = CHR ''.'' then
                  (let f1 = append_res (x, one) f; two = y + 2 * direction
                   in if y = start_row then
                        (case piece_at (board f1) x two of
                           Inl e \<Rightarrow> Inl e
                         | Inr t2 \<Rightarrow>
                             if t2 = CHR ''.'' then Inr (append_res (x, two) f1) else Inr f1)
                      else Inr f1)
                else Inr f)
         else Inr f)"

text \<open>One round of the pawn's capture loop (lines 74 to 76), and the loop over \<open>(-1, 1)\<close>.\<close>

definition pawn_capture :: "side \<Rightarrow> int \<Rightarrow> int \<Rightarrow> frame \<Rightarrow> py_error + frame" where
  "pawn_capture c nx ny f =
     (if in_bounds nx ny then
        (case piece_at (board f) nx ny of
           Inl e \<Rightarrow> Inl e
         | Inr t \<Rightarrow>
             if t \<noteq> CHR ''.'' \<and> color t \<noteq> Some c then Inr (append_res (nx, ny) f)
             else Inr f)
      else Inr f)"

fun pawn_captures :: "side \<Rightarrow> int \<Rightarrow> int \<Rightarrow> int list \<Rightarrow> frame \<Rightarrow> py_error + frame" where
  "pawn_captures c x y [] f = Inr f"
| "pawn_captures c x y (dx # dxs) f =
     (case pawn_capture c (x + dx) (y + (if c = W then - 1 else 1)) f of
        Inl e \<Rightarrow> Inl e
      | Inr f' \<Rightarrow> pawn_captures c x y dxs f')"

text \<open>
  \<open>moves_for(board, x, y)\<close> returns \<open>res\<close>; the model returns it with the board the
  call leaves behind.
\<close>

definition ret :: "frame \<Rightarrow> (py_error + square list \<times> board) option" where
  "ret f = Some (Inr (res f, board f))"

definition moves_for :: "board \<Rightarrow> int \<Rightarrow> int \<Rightarrow> (py_error + square list \<times> board) option" where
  "moves_for b x y =
     (case piece_at b x y of
        Inl e \<Rightarrow> Some (Inl e)
      | Inr piece \<Rightarrow>
          (case color piece of
             None \<Rightarrow> Some (Inr ([], b))
           | Some c \<Rightarrow>
               (let f0 = \<lparr>board = b, res = []\<rparr>; p = lower_chr piece
                in if p = CHR ''p'' then
                     (case pawn_forward c x y f0 of
                        Inl e \<Rightarrow> Some (Inl e)
                      | Inr f1 \<Rightarrow>
                          (case pawn_captures c x y [- 1, 1] f1 of
                             Inl e \<Rightarrow> Some (Inl e)
                           | Inr f2 \<Rightarrow> ret f2))
                   else if p = CHR ''n'' then
                     (case adds c x y knight_offsets f0 of
                        Inl e \<Rightarrow> Some (Inl e)
                      | Inr f1 \<Rightarrow> ret f1)
                   else
                     (case (if p = CHR ''b'' \<or> p = CHR ''q'' then rays c x y diagonals f0
                            else Some (Inr f0)) of
                        None \<Rightarrow> None
                      | Some (Inl e) \<Rightarrow> Some (Inl e)
                      | Some (Inr f1) \<Rightarrow>
                          (case (if p = CHR ''r'' \<or> p = CHR ''q'' then rays c x y orthogonals f1
                                 else Some (Inr f1)) of
                             None \<Rightarrow> None
                           | Some (Inl e) \<Rightarrow> Some (Inl e)
                           | Some (Inr f2) \<Rightarrow>
                               (case (if p = CHR ''k'' then adds c x y king_offsets f2
                                      else Inr f2) of
                                  Inl e \<Rightarrow> Some (Inl e)
                                | Inr f3 \<Rightarrow> ret f3))))))"

section \<open>Check detection\<close>






section \<open>Reading a move\<close>

definition normalized :: "string \<Rightarrow> string" where
  \<comment> \<open>\<open>move.strip().lower().replace(" ", "")\<close>\<close>
  "normalized move = remove_spaces (lower (strip move))"

definition parse_move :: "string \<Rightarrow> py_error + (int \<times> int \<times> int \<times> int) option" where
  "parse_move move =
     (case normalized move of
        [fx, fy, tx, ty] \<Rightarrow>
          if fx \<notin> set FILES \<or> tx \<notin> set FILES \<or> fy \<notin> set RANKS \<or> ty \<notin> set RANKS
          then Inr None
          else
            (case str_index FILES fx of
               Inl e \<Rightarrow> Inl e
             | Inr a \<Rightarrow>
                 (case py_int fy of
                    Inl e \<Rightarrow> Inl e
                  | Inr r1 \<Rightarrow>
                      (case str_index FILES tx of
                         Inl e \<Rightarrow> Inl e
                       | Inr c \<Rightarrow>
                           (case py_int ty of
                              Inl e \<Rightarrow> Inl e
                            | Inr r2 \<Rightarrow> Inr (Some (a, 8 - r1, c, 8 - r2))))))
      | _ \<Rightarrow> Inr None)"

section \<open>One round of the loop of main\<close>

text \<open>
  The loop of \<open>main\<close> owns two variables, \<open>board\<close> and \<open>turn\<close>. One round reads a line
  and either leaves the loop, prints one of four messages and starts over, or commits
  the move.
\<close>

record game =
  gboard :: board
  turn :: side



definition other :: "side \<Rightarrow> side" where
  \<comment> \<open>\<open>"b" if turn == "w" else "w"\<close>\<close>
  "other sd = (if sd = W then B else W)"

definition queen_of :: "side \<Rightarrow> char" where
  "queen_of sd = (if sd = W then CHR ''Q'' else CHR ''q'')"



section \<open>Notions used in the proofs\<close>

text \<open>
  The definitions of this section are not code of the script: they state what the
  lemmas below prove about it, and the theorems of the claims are written without
  them.

  \<open>res_ok\<close> is the invariant of \<open>res\<close> inside \<open>moves_for\<close>: every square collected so
  far is on the board and does not hold a piece of the moving colour.
\<close>

definition res_ok :: "side \<Rightarrow> frame \<Rightarrow> bool" where
  "res_ok c f =
     (\<forall>(tx, ty) \<in> set (res f).
        in_bounds tx ty \<and> (\<exists>t. piece_at (board f) tx ty = Inr t \<and> color t \<noteq> Some c))"

text \<open>
  \<open>steps_left\<close> bounds the rounds the loop of \<open>ray\<close> still has from \<open>(nx, ny)\<close>: it
  decreases with every step on the board, for each of the eight directions.
\<close>

definition steps_left :: "int \<Rightarrow> int \<Rightarrow> int \<Rightarrow> int \<Rightarrow> nat" where
  "steps_left dx dy nx ny =
     (if dx = 1 then nat (8 - nx) else if dx = - 1 then nat (nx + 1)
      else if dy = 1 then nat (8 - ny) else nat (ny + 1))"

text \<open>
  \<open>ray_post\<close> describes a ray that took the squares number \<open>j\<close> to \<open>m - 1\<close> from
  \<open>(x, y)\<close> along \<open>(dx, dy)\<close>: what those squares hold, and why square \<open>m\<close> was not
  taken.
\<close>

definition ray_post :: "board \<Rightarrow> side \<Rightarrow> int \<Rightarrow> int \<Rightarrow> int \<Rightarrow> int \<Rightarrow> nat \<Rightarrow> nat \<Rightarrow> bool" where
  "ray_post b c x y dx dy j m =
     ((\<forall>k. j \<le> k \<and> k < m \<longrightarrow>
          in_bounds (x + int k * dx) (y + int k * dy)
          \<and> (\<exists>t. piece_at b (x + int k * dx) (y + int k * dy) = Inr t
                \<and> color t \<noteq> Some c \<and> (Suc k < m \<longrightarrow> t = CHR ''.'')))
      \<and> (\<not> in_bounds (x + int m * dx) (y + int m * dy)
          \<or> (\<exists>t. piece_at b (x + int m * dx) (y + int m * dy) = Inr t \<and> color t = Some c)
          \<or> (j < m \<and> (\<exists>t. piece_at b (x + int (m - 1) * dx) (y + int (m - 1) * dy) = Inr t
                           \<and> t \<noteq> CHR ''.''))))"

text \<open>
  The squares a pawn of colour \<open>c\<close> on \<open>(x, y)\<close> may step to, in the order in which
  \<open>moves_for\<close> collects them, and the test of its capture loop.
\<close>

definition forward_squares :: "board \<Rightarrow> side \<Rightarrow> int \<Rightarrow> int \<Rightarrow> square list" where
  "forward_squares b c x y =
     (let d = (if c = W then - 1 else 1)
      in if in_bounds x (y + d) \<and> piece_at b x (y + d) = Inr (CHR ''.'')
         then (x, y + d) #
              (if y = (if c = W then 6 else 1) \<and> piece_at b x (y + 2 * d) = Inr (CHR ''.'')
               then [(x, y + 2 * d)] else [])
         else [])"

definition enemy_at :: "board \<Rightarrow> side \<Rightarrow> square \<Rightarrow> bool" where
  "enemy_at b c sq =
     (in_bounds (fst sq) (snd sq)
      \<and> (case piece_at b (fst sq) (snd sq) of
            Inl e \<Rightarrow> False
          | Inr t \<Rightarrow> t \<noteq> CHR ''.'' \<and> color t \<noteq> Some c))"

section \<open>Reading the board\<close>

lemma py_index_8:
  "length xs = 8 \<Longrightarrow>
   py_index xs i = (if - 8 \<le> i \<and> i < 8 then Inr (xs ! nat (i mod 8)) else Inl IndexError)"
proof -
  assume len: "length xs = 8"
  have neg: "i mod 8 = 8 + i" if "i < 0" "- 8 \<le> i"
    using that by presburger
  have pos: "i mod 8 = i" if "0 \<le> i" "i < 8"
    using that by simp
  show ?thesis
    using len neg pos by (simp add: py_index_def)
qed

lemma wf_board_row: "wf_board b \<Longrightarrow> k < 8 \<Longrightarrow> length (b ! k) = 8"
  by (simp add: wf_board_def list_all_length)

lemma wf_new_board: "wf_board new_board"
  by (simp add: wf_board_def new_board_def)

lemma piece_at_wf:
  "wf_board b \<Longrightarrow>
   piece_at b x y =
     (if - 8 \<le> x \<and> x < 8 \<and> - 8 \<le> y \<and> y < 8 then Inr (b ! nat (y mod 8) ! nat (x mod 8))
      else Inl IndexError)"
proof -
  assume wf: "wf_board b"
  then have len: "length b = 8" by (simp add: wf_board_def)
  show ?thesis
  proof (cases "- 8 \<le> y \<and> y < 8")
    case True
    then have "nat (y mod 8) < 8" by auto
    then have "length (b ! nat (y mod 8)) = 8" using wf by (rule wf_board_row[rotated])
    then show ?thesis using True by (simp add: piece_at_def py_index_8[OF len] py_index_8)
  next
    case False
    then show ?thesis by (auto simp add: piece_at_def py_index_8[OF len])
  qed
qed

lemma piece_at_in_bounds:
  "wf_board b \<Longrightarrow> in_bounds x y \<Longrightarrow> piece_at b x y = Inr (b ! nat y ! nat x)"
  by (simp add: piece_at_wf in_bounds_def)

lemma moves_for_raises:
  "piece_at b x y = Inl e \<Longrightarrow> moves_for b x y = Some (Inl e)"
  by (simp add: moves_for_def)

text \<open>
  Claim C7, as the script has it. On a board of eight rows of eight cells, reading a
  square raises \<open>IndexError\<close> exactly when a coordinate is below \<open>-8\<close> or above \<open>7\<close>,
  and \<open>moves_for\<close> raises it with the read. A coordinate from \<open>-8\<close> to \<open>-1\<close> counts from
  the end of the list: the read succeeds and returns the cell at the coordinates
  taken modulo 8.
\<close>

theorem piece_at_range:
  assumes "wf_board b"
  shows "piece_at b x y =
           (if - 8 \<le> x \<and> x < 8 \<and> - 8 \<le> y \<and> y < 8
            then Inr (b ! nat (y mod 8) ! nat (x mod 8)) else Inl IndexError)
    \<and> (\<not> (- 8 \<le> x \<and> x < 8 \<and> - 8 \<le> y \<and> y < 8) \<longrightarrow> moves_for b x y = Some (Inl IndexError))"
  using assms by (simp add: piece_at_wf moves_for_raises)

theorem piece_at_range_witness:
  "wf_board new_board \<and> piece_at new_board 8 0 = Inl IndexError
   \<and> piece_at new_board (- 8) (- 8) = Inr (CHR ''r'')
   \<and> moves_for new_board 0 (- 9) = Some (Inl IndexError)"
  using piece_at_range [of new_board 8 0] piece_at_range [of new_board "- 8" "- 8"]
    piece_at_range [of new_board 0 "- 9"]
  by (simp add: wf_board_def new_board_def)

text \<open>
  Claim C7 as the specification words it fails below zero: on the starting position
  the square \<open>(-1, -1)\<close> is outside the board, yet reading it returns the rook of the
  last row, and \<open>moves_for\<close> at \<open>(-2, -1)\<close> finds the knight there and returns a move.
\<close>

theorem piece_at_negative_counterexample:
  "\<not> in_bounds (- 1) (- 1) \<and> piece_at new_board (- 1) (- 1) = Inr (CHR ''R'')
   \<and> moves_for new_board (- 2) (- 1) = Some (Inr ([(0, 0)], new_board))"
  by code_simp

section \<open>Normalising the input line\<close>

lemma of_char_lower_chr:
  "(of_char (lower_chr ch) :: nat) = (if isupper ch then of_char ch + 32 else of_char ch)"
  by (auto simp: lower_chr_def isupper_def Let_def)

lemma isspace_lower_chr [simp]: "isspace (lower_chr ch) = isspace ch"
  unfolding isspace_def Let_def of_char_lower_chr by (auto simp: isupper_def Let_def)

lemma lower_chr_eq_space [simp]: "(lower_chr ch = CHR '' '') = (ch = CHR '' '')"
proof -
  have "(lower_chr ch = CHR '' '') = ((of_char (lower_chr ch) :: nat) = of_char (CHR '' ''))"
    by (simp only: of_char_eq_iff)
  also have "\<dots> = ((of_char ch :: nat) = of_char (CHR '' ''))"
    unfolding of_char_lower_chr by (auto simp: isupper_def Let_def)
  also have "\<dots> = (ch = CHR '' '')"
    by (simp only: of_char_eq_iff)
  finally show ?thesis .
qed

lemma dropWhile_lower: "dropWhile isspace (lower s) = lower (dropWhile isspace s)"
  by (induction s) (simp_all add: lower_def)

lemma lower_strip: "lower (strip s) = strip (lower s)"
  by (simp add: strip_def dropWhile_lower rev_map[symmetric] lower_def[symmetric])
     (simp add: lower_def rev_map dropWhile_lower[unfolded lower_def])

lemma dropWhile_remove_spaces:
  "dropWhile isspace (remove_spaces s) = remove_spaces (dropWhile isspace s)"
  by (induction s) (auto simp: remove_spaces_def isspace_def)

lemma remove_spaces_rev: "remove_spaces (rev s) = rev (remove_spaces s)"
  by (simp add: remove_spaces_def rev_filter)

lemma remove_spaces_strip: "remove_spaces (strip s) = strip (remove_spaces s)"
  by (simp add: strip_def remove_spaces_rev dropWhile_remove_spaces [symmetric])

lemma normalized_alt: "normalized s = strip (remove_spaces (lower s))"
  by (simp add: normalized_def lower_strip remove_spaces_strip)

lemma remove_spaces_insert: "remove_spaces (u @ CHR '' '' # v) = remove_spaces (u @ v)"
  by (simp add: remove_spaces_def)

lemma lower_chr_idem [simp]: "lower_chr (lower_chr ch) = lower_chr ch"
proof -
  have "(of_char (lower_chr (lower_chr ch)) :: nat) = of_char (lower_chr ch)"
    unfolding of_char_lower_chr [of "lower_chr ch"]
    by (auto simp: isupper_def Let_def of_char_lower_chr)
  then show ?thesis by (simp only: of_char_eq_iff)
qed

lemma lower_idem: "lower (lower s) = lower s"
  by (simp add: lower_def)

text \<open>
  Claim C10. \<open>parse_move\<close> reads its input only through the string with every space
  deleted and every letter lowercased: two inputs that agree after that parse alike.
  So a space inserted anywhere changes nothing, nor does a change of letter case.
\<close>

theorem parse_move_ignores_spaces_and_case:
  "(remove_spaces (lower s) = remove_spaces (lower t) \<longrightarrow> parse_move s = parse_move t)
   \<and> parse_move (u @ CHR '' '' # v) = parse_move (u @ v)
   \<and> parse_move (lower s) = parse_move s"
proof -
  have a: "parse_move s = parse_move t" if "remove_spaces (lower s) = remove_spaces (lower t)" for s t
    using that by (simp add: parse_move_def normalized_alt)
  have b: "parse_move (u @ CHR '' '' # v) = parse_move (u @ v)"
    by (rule a) (simp add: lower_def remove_spaces_def)
  have c: "parse_move (lower s) = parse_move s"
    by (rule a) (simp add: lower_idem)
  from a b c show ?thesis by blast
qed

theorem parse_move_ignores_spaces_and_case_witness:
  "remove_spaces (lower ''e 2 e 4'') = remove_spaces (lower ''E2E4'')
   \<and> parse_move ''e 2 e 4'' = parse_move ''E2E4''
   \<and> parse_move ''E2E4'' = parse_move ''e2e4''
   \<and> parse_move ''e2e4'' = Inr (Some (4, 6, 4, 4))"
proof -
  have h: "remove_spaces (lower ''e 2 e 4'') = remove_spaces (lower ''E2E4'')"
    by code_simp
  have k: "parse_move ''e2e4'' = Inr (Some (4, 6, 4, 4))"
    by code_simp
  have l: "lower ''E2E4'' = ''e2e4''"
    by code_simp
  from parse_move_ignores_spaces_and_case [of "''e 2 e 4''" "''E2E4''" "[]" "[]"] h
  have "parse_move ''e 2 e 4'' = parse_move ''E2E4''" by blast
  moreover from parse_move_ignores_spaces_and_case [of "''E2E4''" "''E2E4''" "[]" "[]"] l
  have "parse_move ''E2E4'' = parse_move ''e2e4''" by simp
  ultimately show ?thesis using h k by blast
qed

section \<open>The result of parse_move\<close>

lemma below_8_cases:
  "k < (8::nat) \<Longrightarrow> k \<in> {0, 1, 2, 3, 4, 5, 6, 7}"
  by auto

lemma str_index_FILES: "a < 8 \<Longrightarrow> str_index FILES (FILES ! a) = Inr (int a)"
  by (drule below_8_cases) (auto simp: FILES_def)

lemma nth_FILES_mem: "a < 8 \<Longrightarrow> FILES ! a \<in> set FILES"
  by (rule nth_mem) (simp add: FILES_def)

lemma rank_digit_cases:
  "1 \<le> r \<Longrightarrow> r \<le> (8::nat) \<Longrightarrow> r \<in> {1, 2, 3, 4, 5, 6, 7, 8}"
  by auto

lemma py_int_rank: "of_char ch = 48 + r \<Longrightarrow> 1 \<le> r \<Longrightarrow> r \<le> (8::nat) \<Longrightarrow> py_int ch = Inr (int r)"
  by (simp add: py_int_def)

lemma rank_digit_mem: "1 \<le> r \<Longrightarrow> r \<le> (8::nat) \<Longrightarrow> of_char ch = 48 + r \<Longrightarrow> ch \<in> set RANKS"
  by (drule (1) rank_digit_cases) (auto simp: RANKS_def of_char_eq_iff [where ?'a = nat, symmetric])

lemma str_index_total: "ch \<in> set s \<Longrightarrow> \<exists>i. str_index s ch = Inr i"
  by (induction s) auto

lemma py_int_total: "ch \<in> set RANKS \<Longrightarrow> \<exists>r. py_int ch = Inr r"
  by (auto simp: RANKS_def py_int_def)

lemma parse_move_short: "length (normalized s) \<noteq> 4 \<Longrightarrow> parse_move s = Inr None"
  by (auto simp: parse_move_def split: list.splits)

lemma parse_move_four:
  "normalized s = [fx, fy, tx, ty] \<Longrightarrow>
   parse_move s =
     (if fx \<notin> set FILES \<or> tx \<notin> set FILES \<or> fy \<notin> set RANKS \<or> ty \<notin> set RANKS
      then Inr None
      else
        (case str_index FILES fx of
           Inl e \<Rightarrow> Inl e
         | Inr a \<Rightarrow>
             (case py_int fy of
                Inl e \<Rightarrow> Inl e
              | Inr r1 \<Rightarrow>
                  (case str_index FILES tx of
                     Inl e \<Rightarrow> Inl e
                   | Inr c \<Rightarrow>
                       (case py_int ty of
                          Inl e \<Rightarrow> Inl e
                        | Inr r2 \<Rightarrow> Inr (Some (a, 8 - r1, c, 8 - r2)))))))"
  by (simp add: parse_move_def)

lemma parse_move_no_raise: "parse_move s \<noteq> Inl e"
proof (cases "length (normalized s) = 4")
  case False
  then show ?thesis by (simp add: parse_move_short)
next
  case True
  then obtain fx fy tx ty where n: "normalized s = [fx, fy, tx, ty]"
    by (auto simp: length_Suc_conv numeral_eq_Suc)
  show ?thesis
  proof (cases "fx \<in> set FILES \<and> tx \<in> set FILES \<and> fy \<in> set RANKS \<and> ty \<in> set RANKS")
    case False
    then show ?thesis using parse_move_four [OF n] by auto
  next
    case True
    then obtain a c r1 r2 where "str_index FILES fx = Inr a" "str_index FILES tx = Inr c"
      "py_int fy = Inr r1" "py_int ty = Inr r2"
      using str_index_total py_int_total by meson
    then show ?thesis using True parse_move_four [OF n] by simp
  qed
qed

text \<open>
  Claim C6. \<open>parse_move\<close> never raises. It returns \<open>None\<close> when the normalised input
  does not have exactly four characters, and when one of the two file characters is
  outside \<open>FILES\<close> or one of the two rank characters is outside \<open>RANKS\<close>. Otherwise a
  file letter becomes its position in \<open>FILES\<close> and a rank digit \<open>r\<close> (the character
  with code \<open>48 + r\<close>) becomes the row \<open>8 - r\<close>.
\<close>

theorem parse_move_spec:
  "(\<forall>e. parse_move s \<noteq> Inl e)
   \<and> (length (normalized s) \<noteq> 4 \<longrightarrow> parse_move s = Inr None)
   \<and> (normalized s = [fx, fy, tx, ty]
        \<and> (fx \<notin> set FILES \<or> tx \<notin> set FILES \<or> fy \<notin> set RANKS \<or> ty \<notin> set RANKS)
      \<longrightarrow> parse_move s = Inr None)
   \<and> (a < 8 \<and> c < 8 \<and> 1 \<le> r1 \<and> r1 \<le> 8 \<and> 1 \<le> r2 \<and> r2 \<le> 8
        \<and> normalized s = [FILES ! a, fy, FILES ! c, ty]
        \<and> of_char fy = 48 + r1 \<and> of_char ty = 48 + r2
      \<longrightarrow> parse_move s = Inr (Some (int a, 8 - int r1, int c, 8 - int r2)))"
proof (intro conjI allI impI)
  fix e show "parse_move s \<noteq> Inl e" by (rule parse_move_no_raise)
next
  assume "length (normalized s) \<noteq> 4"
  then show "parse_move s = Inr None" by (rule parse_move_short)
next
  assume "normalized s = [fx, fy, tx, ty]
        \<and> (fx \<notin> set FILES \<or> tx \<notin> set FILES \<or> fy \<notin> set RANKS \<or> ty \<notin> set RANKS)"
  then show "parse_move s = Inr None" using parse_move_four by auto
next
  assume h: "a < 8 \<and> c < 8 \<and> 1 \<le> r1 \<and> r1 \<le> 8 \<and> 1 \<le> r2 \<and> r2 \<le> 8
        \<and> normalized s = [FILES ! a, fy, FILES ! c, ty]
        \<and> of_char fy = 48 + r1 \<and> of_char ty = 48 + r2"
  then have n: "normalized s = [FILES ! a, fy, FILES ! c, ty]"
    by simp
  from h have mem: "fy \<in> set RANKS" "ty \<in> set RANKS"
    using rank_digit_mem by blast+
  from h have digits: "py_int fy = Inr (int r1)" "py_int ty = Inr (int r2)"
    using py_int_rank by blast+
  show "parse_move s = Inr (Some (int a, 8 - int r1, int c, 8 - int r2))"
    using h mem digits by (simp add: parse_move_four [OF n] str_index_FILES nth_FILES_mem)
qed

theorem parse_move_spec_witness:
  "parse_move ''e2e'' = Inr None \<and> parse_move ''i2e4'' = Inr None \<and> parse_move ''a9a1'' = Inr None
   \<and> parse_move ''a8h1'' = Inr (Some (0, 0, 7, 7))"
proof -
  have n1: "length (normalized ''e2e'') \<noteq> 4" by code_simp
  have n2: "normalized ''i2e4'' = [CHR ''i'', CHR ''2'', CHR ''e'', CHR ''4''] \<and> CHR ''i'' \<notin> set FILES"
    by code_simp
  have n3: "normalized ''a9a1'' = [CHR ''a'', CHR ''9'', CHR ''a'', CHR ''1''] \<and> CHR ''9'' \<notin> set RANKS"
    by code_simp
  have n4: "normalized ''a8h1'' = [FILES ! 0, CHR ''8'', FILES ! 7, CHR ''1'']
      \<and> of_char (CHR ''8'') = 48 + (8::nat) \<and> of_char (CHR ''1'') = 48 + (1::nat)"
    by code_simp
  from parse_move_spec [of "''e2e''"] n1 have "parse_move ''e2e'' = Inr None" by blast
  moreover from parse_move_spec [of "''i2e4''" "CHR ''i''" "CHR ''2''" "CHR ''e''" "CHR ''4''"] n2
  have "parse_move ''i2e4'' = Inr None" by blast
  moreover from parse_move_spec [of "''a9a1''" "CHR ''a''" "CHR ''9''" "CHR ''a''" "CHR ''1''"] n3
  have "parse_move ''a9a1'' = Inr None" by blast
  moreover from parse_move_spec [of "''a8h1''" _ "CHR ''8''" _ "CHR ''1''" 0 7 8 1] n4
  have "parse_move ''a8h1'' = Inr (Some (0, 0, 7, 7))" by simp
  ultimately show ?thesis by blast
qed

section \<open>What the move generator leaves behind\<close>

lemma board_append_res [simp]: "board (append_res s f) = board f"
  by (simp add: append_res_def)

lemma res_append_res [simp]: "res (append_res s f) = res f @ [s]"
  by (simp add: append_res_def)

lemma res_ok_append:
  "res_ok c f \<Longrightarrow> in_bounds nx ny \<Longrightarrow> piece_at (board f) nx ny = Inr t \<Longrightarrow> color t \<noteq> Some c
   \<Longrightarrow> res_ok c (append_res (nx, ny) f)"
  by (auto simp: res_ok_def)

lemma color_empty [simp]: "color (CHR ''.'') = None"
  by (simp add: color_def)

lemma color_None_iff: "color t = None \<longleftrightarrow> t = CHR ''.''"
  by (simp add: color_def)

lemma add_ok:
  "add c nx ny f = Inr (r, f') \<Longrightarrow> res_ok c f \<Longrightarrow> res_ok c f' \<and> board f' = board f"
  by (auto simp: add_def res_ok_append split: if_splits sum.splits)

lemma adds_ok:
  "adds c x y ds f = Inr f' \<Longrightarrow> res_ok c f \<Longrightarrow> res_ok c f' \<and> board f' = board f"
proof (induction ds arbitrary: f)
  case Nil
  then show ?case by simp
next
  case (Cons d ds)
  obtain dx dy where d: "d = (dx, dy)" by (cases d)
  from Cons.prems(1) obtain r f1 where
    a: "add c (x + dx) (y + dy) f = Inr (r, f1)" and rest: "adds c x y ds f1 = Inr f'"
    by (auto simp: d split: sum.splits)
  from add_ok [OF a Cons.prems(2)] have "res_ok c f1" "board f1 = board f" by simp_all
  with Cons.IH [OF rest] show ?case by simp
qed

lemma ray_loop_ok_aux:
  assumes "ray_loop c dx dy nx ny f = Some r"
  shows "\<forall>f'. r = Inr f' \<longrightarrow> res_ok c f \<longrightarrow> res_ok c f' \<and> board f' = board f"
proof (rule ray_loop.raw_induct
    [where P = "\<lambda>c dx dy nx ny f r.
        \<forall>f'. r = Inr f' \<longrightarrow> res_ok c f \<longrightarrow> res_ok c f' \<and> board f' = board f", OF _ assms])
  fix rl :: "side \<Rightarrow> int \<Rightarrow> int \<Rightarrow> int \<Rightarrow> int \<Rightarrow> frame \<Rightarrow> (py_error + frame) option"
    and c :: side and dx dy nx ny :: int and f :: frame and r :: "py_error + frame"
  assume IH: "\<And>c dx dy nx ny f r. rl c dx dy nx ny f = Some r \<Longrightarrow>
      \<forall>f'. r = Inr f' \<longrightarrow> res_ok c f \<longrightarrow> res_ok c f' \<and> board f' = board f"
  assume body: "(if in_bounds nx ny then
        (case piece_at (board f) nx ny of
           Inl e \<Rightarrow> Some (Inl e)
         | Inr target \<Rightarrow>
             if target \<noteq> CHR ''.'' \<and> color target = Some c then Some (Inr f)
             else if target \<noteq> CHR ''.'' then Some (Inr (append_res (nx, ny) f))
             else rl c dx dy (nx + dx) (ny + dy) (append_res (nx, ny) f))
      else Some (Inr f)) = Some r"
  show "\<forall>f'. r = Inr f' \<longrightarrow> res_ok c f \<longrightarrow> res_ok c f' \<and> board f' = board f"
  proof (intro allI impI)
    fix f'
    assume r: "r = Inr f'" and ok: "res_ok c f"
    show "res_ok c f' \<and> board f' = board f"
    proof (cases "in_bounds nx ny")
      case False
      with body r ok show ?thesis by simp
    next
      case inb: True
      with body r obtain t where t: "piece_at (board f) nx ny = Inr t"
        by (auto split: sum.splits)
      show ?thesis
      proof (cases "t \<noteq> CHR ''.'' \<and> color t = Some c")
        case True
        with body r t inb ok show ?thesis by simp
      next
        case False
        then have nf: "color t \<noteq> Some c" by (auto simp: color_def)
        have ok': "res_ok c (append_res (nx, ny) f)"
          using res_ok_append [OF ok inb t nf] .
        show ?thesis
        proof (cases "t = CHR ''.''")
          case True
          with body t inb
          have "rl c dx dy (nx + dx) (ny + dy) (append_res (nx, ny) f) = Some r" by simp
          from IH [OF this] r ok' show ?thesis by simp
        next
          case False
          with body r t inb nf ok' show ?thesis by auto
        qed
      qed
    qed
  qed
qed

lemma ray_loop_ok:
  "ray_loop c dx dy nx ny f = Some (Inr f') \<Longrightarrow> res_ok c f \<Longrightarrow> res_ok c f' \<and> board f' = board f"
  using ray_loop_ok_aux by blast

lemma rays_ok:
  "rays c x y ds f = Some (Inr f') \<Longrightarrow> res_ok c f \<Longrightarrow> res_ok c f' \<and> board f' = board f"
proof (induction ds arbitrary: f)
  case Nil
  then show ?case by simp
next
  case (Cons d ds)
  obtain dx dy where d: "d = (dx, dy)" by (cases d)
  from Cons.prems(1) obtain f1 where
    a: "ray c x y dx dy f = Some (Inr f1)" and rest: "rays c x y ds f1 = Some (Inr f')"
    by (auto simp: d split: option.splits sum.splits)
  from a have "ray_loop c dx dy (x + dx) (y + dy) f = Some (Inr f1)" by (simp add: ray_def)
  from ray_loop_ok [OF this Cons.prems(2)] have "res_ok c f1" "board f1 = board f" by simp_all
  with Cons.IH [OF rest] show ?case by simp
qed

lemma pawn_forward_ok:
  "pawn_forward c x y f = Inr f' \<Longrightarrow> res_ok c f \<Longrightarrow> res_ok c f' \<and> board f' = board f"
  by (auto simp: pawn_forward_def Let_def res_ok_append in_bounds_def split: if_splits sum.splits)

lemma pawn_capture_ok:
  "pawn_capture c nx ny f = Inr f' \<Longrightarrow> res_ok c f \<Longrightarrow> res_ok c f' \<and> board f' = board f"
  by (auto simp: pawn_capture_def res_ok_append split: if_splits sum.splits)

lemma pawn_captures_ok:
  "pawn_captures c x y dxs f = Inr f' \<Longrightarrow> res_ok c f \<Longrightarrow> res_ok c f' \<and> board f' = board f"
proof (induction dxs arbitrary: f)
  case Nil
  then show ?case by simp
next
  case (Cons dx dxs)
  from Cons.prems(1) obtain f1 where
    a: "pawn_capture c (x + dx) (y + (if c = W then - 1 else 1)) f = Inr f1"
    and rest: "pawn_captures c x y dxs f1 = Inr f'"
    by (auto split: sum.splits)
  from pawn_capture_ok [OF a Cons.prems(2)] have "res_ok c f1" "board f1 = board f" by simp_all
  with Cons.IH [OF rest] show ?case by simp
qed

lemma res_ok_init: "res_ok c \<lparr>board = b, res = []\<rparr>"
  by (simp add: res_ok_def)

lemma moves_for_frame:
  assumes run: "moves_for b x y = Some (Inr (ms, b'))"
    and piece: "piece_at b x y = Inr piece"
    and c: "color piece = Some c"
  shows "\<exists>f. res_ok c f \<and> board f = b \<and> ms = res f \<and> b' = b"
proof -
  define f0 where "f0 = \<lparr>board = b, res = []\<rparr>"
  have ok0: "res_ok c f0" and b0: "board f0 = b"
    by (simp_all add: f0_def res_ok_init)
  define p where "p = lower_chr piece"
  show ?thesis
  proof (cases "p = CHR ''p''")
    case True
    with run piece c obtain f1 f2 where
      s1: "pawn_forward c x y f0 = Inr f1" and s2: "pawn_captures c x y [- 1, 1] f1 = Inr f2"
      and out: "ms = res f2" "b' = board f2"
      by (auto simp: moves_for_def ret_def f0_def p_def split: sum.splits)
    from pawn_forward_ok [OF s1 ok0] have "res_ok c f1" "board f1 = board f0" by simp_all
    with pawn_captures_ok [OF s2] have "res_ok c f2" "board f2 = board f0" by simp_all
    with out b0 show ?thesis by auto
  next
    case notp: False
    show ?thesis
    proof (cases "p = CHR ''n''")
      case True
      with notp run piece c obtain f1 where
        s1: "adds c x y knight_offsets f0 = Inr f1" and out: "ms = res f1" "b' = board f1"
        by (auto simp: moves_for_def ret_def f0_def p_def split: sum.splits)
      from adds_ok [OF s1 ok0] out b0 show ?thesis by auto
    next
      case notn: False
      from notp notn run piece c obtain f1 f2 f3 where
        s1: "(if p = CHR ''b'' \<or> p = CHR ''q'' then rays c x y diagonals f0 else Some (Inr f0))
              = Some (Inr f1)"
        and s2: "(if p = CHR ''r'' \<or> p = CHR ''q'' then rays c x y orthogonals f1 else Some (Inr f1))
              = Some (Inr f2)"
        and s3: "(if p = CHR ''k'' then adds c x y king_offsets f2 else Inr f2) = Inr f3"
        and out: "ms = res f3" "b' = board f3"
        unfolding moves_for_def ret_def f0_def [symmetric] p_def [symmetric] Let_def
        by (simp add: f0_def [symmetric] p_def [symmetric] split: sum.splits option.splits)
      from s1 ok0 have 1: "res_ok c f1 \<and> board f1 = board f0"
        by (auto split: if_splits dest: rays_ok)
      with s2 have 2: "res_ok c f2 \<and> board f2 = board f0"
        by (auto split: if_splits dest: rays_ok)
      with s3 have 3: "res_ok c f3 \<and> board f3 = board f0"
        by (auto split: if_splits dest: adds_ok)
      with out b0 show ?thesis by auto
    qed
  qed
qed

lemma moves_for_empty:
  "piece_at b x y = Inr piece \<Longrightarrow> color piece = None \<Longrightarrow> moves_for b x y = Some (Inr ([], b))"
  by (simp add: moves_for_def)

lemma moves_for_ok:
  assumes run: "moves_for b x y = Some (Inr (ms, b'))"
    and piece: "piece_at b x y = Inr piece"
  shows "b' = b"
    and "(tx, ty) \<in> set ms \<Longrightarrow>
         in_bounds tx ty \<and> (\<exists>t. piece_at b tx ty = Inr t \<and> color t \<noteq> color piece)"
proof -
  show "b' = b"
  proof (cases "color piece")
    case None
    with run piece show ?thesis by (simp add: moves_for_empty)
  next
    case (Some c)
    from moves_for_frame [OF run piece Some] show ?thesis by blast
  qed
  assume mem: "(tx, ty) \<in> set ms"
  show "in_bounds tx ty \<and> (\<exists>t. piece_at b tx ty = Inr t \<and> color t \<noteq> color piece)"
  proof (cases "color piece")
    case None
    with run piece mem show ?thesis by (simp add: moves_for_empty)
  next
    case (Some c)
    from moves_for_frame [OF run piece Some] obtain f where
      "res_ok c f" "board f = b" "ms = res f" by blast
    with mem Some show ?thesis by (auto simp: res_ok_def)
  qed
qed

lemma moves_for_board:
  "moves_for b x y = Some (Inr (ms, b')) \<Longrightarrow> b' = b"
proof (cases "piece_at b x y")
  case (Inl e)
  assume "moves_for b x y = Some (Inr (ms, b'))"
  with moves_for_raises [OF Inl] show ?thesis by simp
next
  case (Inr piece)
  assume "moves_for b x y = Some (Inr (ms, b'))"
  then show ?thesis using Inr by (rule moves_for_ok(1))
qed

section \<open>The squares a ray takes\<close>

lemma direction_cases:
  "(dx, dy) \<in> set (diagonals @ orthogonals) \<Longrightarrow>
   (dx = 1 \<or> dx = - 1 \<or> (dx = 0 \<and> (dy = 1 \<or> dy = - 1))) \<and> (dy = 1 \<or> dy = - 1 \<or> dy = 0)"
  by (auto simp: diagonals_def orthogonals_def)

lemma steps_left_step:
  "(dx, dy) \<in> set (diagonals @ orthogonals) \<Longrightarrow> in_bounds nx ny \<Longrightarrow>
   steps_left dx dy (nx + dx) (ny + dy) < steps_left dx dy nx ny"
  by (drule direction_cases) (auto simp: steps_left_def in_bounds_def)

lemma ray_post_outside:
  "\<not> in_bounds (x + int j * dx) (y + int j * dy) \<Longrightarrow> ray_post b c x y dx dy j j"
  by (auto simp: ray_post_def)

lemma ray_post_friend:
  "piece_at b (x + int j * dx) (y + int j * dy) = Inr t \<Longrightarrow> color t = Some c
   \<Longrightarrow> ray_post b c x y dx dy j j"
  by (auto simp: ray_post_def)

lemma ray_post_capture:
  assumes inb: "in_bounds (x + int j * dx) (y + int j * dy)"
    and t: "piece_at b (x + int j * dx) (y + int j * dy) = Inr t"
    and occupied: "t \<noteq> CHR ''.''"
    and nf: "color t \<noteq> Some c"
  shows "ray_post b c x y dx dy j (Suc j)"
proof -
  have cells: "in_bounds (x + int k * dx) (y + int k * dy)
      \<and> (\<exists>t. piece_at b (x + int k * dx) (y + int k * dy) = Inr t
            \<and> color t \<noteq> Some c \<and> (Suc k < Suc j \<longrightarrow> t = CHR ''.''))"
    if "j \<le> k \<and> k < Suc j" for k
  proof -
    from that have "k = j" by simp
    with inb t nf show ?thesis by simp
  qed
  have stop: "j < Suc j \<and> (\<exists>t. piece_at b (x + int (Suc j - 1) * dx) (y + int (Suc j - 1) * dy) = Inr t
                           \<and> t \<noteq> CHR ''.'')"
    using t occupied by simp
  from cells stop show ?thesis
    unfolding ray_post_def by blast
qed

lemma ray_post_step:
  assumes inb: "in_bounds (x + int j * dx) (y + int j * dy)"
    and t: "piece_at b (x + int j * dx) (y + int j * dy) = Inr (CHR ''.'')"
    and m: "Suc j \<le> m"
    and post: "ray_post b c x y dx dy (Suc j) m"
  shows "ray_post b c x y dx dy j m"
proof -
  have cells: "in_bounds (x + int k * dx) (y + int k * dy)
      \<and> (\<exists>t. piece_at b (x + int k * dx) (y + int k * dy) = Inr t
            \<and> color t \<noteq> Some c \<and> (Suc k < m \<longrightarrow> t = CHR ''.''))"
    if k: "j \<le> k \<and> k < m" for k
  proof (cases "k = j")
    case True
    with inb t show ?thesis by (simp add: color_def)
  next
    case False
    with k have "Suc j \<le> k \<and> k < m" by simp
    with post show ?thesis unfolding ray_post_def by blast
  qed
  from post have "\<not> in_bounds (x + int m * dx) (y + int m * dy)
      \<or> (\<exists>t. piece_at b (x + int m * dx) (y + int m * dy) = Inr t \<and> color t = Some c)
      \<or> (Suc j < m \<and> (\<exists>t. piece_at b (x + int (m - 1) * dx) (y + int (m - 1) * dy) = Inr t
                           \<and> t \<noteq> CHR ''.''))"
    unfolding ray_post_def by (rule conjunct2)
  then have stop: "\<not> in_bounds (x + int m * dx) (y + int m * dy)
      \<or> (\<exists>t. piece_at b (x + int m * dx) (y + int m * dy) = Inr t \<and> color t = Some c)
      \<or> (j < m \<and> (\<exists>t. piece_at b (x + int (m - 1) * dx) (y + int (m - 1) * dy) = Inr t
                           \<and> t \<noteq> CHR ''.''))"
    using Suc_lessD by blast
  from cells stop show ?thesis
    unfolding ray_post_def by blast
qed

lemma ray_loop_spec:
  assumes dir: "(dx, dy) \<in> set (diagonals @ orthogonals)"
  shows "wf_board (board f) \<Longrightarrow> steps_left dx dy (x + int j * dx) (y + int j * dy) = d \<Longrightarrow>
    \<exists>m\<ge>j.
      ray_loop c dx dy (x + int j * dx) (y + int j * dy) f =
        Some (Inr (f\<lparr>res := res f @ map (\<lambda>k. (x + int k * dx, y + int k * dy)) [j..<m]\<rparr>))
      \<and> ray_post (board f) c x y dx dy j m"
proof (induction d arbitrary: j f rule: less_induct)
  case (less d)
  let ?X = "\<lambda>k. x + int k * dx" and ?Y = "\<lambda>k. y + int k * dy"
  note wf = less.prems(1) and d = less.prems(2)
  show ?case
  proof (cases "in_bounds (?X j) (?Y j)")
    case False
    then have "ray_loop c dx dy (?X j) (?Y j) f = Some (Inr f)"
      by (subst ray_loop.simps) simp
    with ray_post_outside [OF False] show ?thesis by (intro exI [of _ j]) simp
  next
    case inb: True
    then obtain t where t: "piece_at (board f) (?X j) (?Y j) = Inr t"
      using piece_at_in_bounds [OF wf] by blast
    show ?thesis
    proof (cases "t \<noteq> CHR ''.'' \<and> color t = Some c")
      case True
      with inb t have "ray_loop c dx dy (?X j) (?Y j) f = Some (Inr f)"
        by (subst ray_loop.simps) simp
      with ray_post_friend [OF t] True show ?thesis by (intro exI [of _ j]) simp
    next
      case nofriend: False
      then have nf: "color t \<noteq> Some c" by (auto simp: color_def)
      show ?thesis
      proof (cases "t = CHR ''.''")
        case False
        with inb t nofriend
        have "ray_loop c dx dy (?X j) (?Y j) f = Some (Inr (append_res (?X j, ?Y j) f))"
          by (subst ray_loop.simps) auto
        then have run: "ray_loop c dx dy (?X j) (?Y j) f =
            Some (Inr (f\<lparr>res := res f @ map (\<lambda>k. (?X k, ?Y k)) [j..<Suc j]\<rparr>))"
          by (simp add: append_res_def)
        with ray_post_capture [OF inb t False nf] show ?thesis
          by (intro exI [of _ "Suc j"]) simp
      next
        case empty: True
        let ?f = "append_res (?X j, ?Y j) f"
        have nxt: "?X j + dx = ?X (Suc j)" "?Y j + dy = ?Y (Suc j)"
          by (simp_all add: algebra_simps)
        from inb t empty
        have "ray_loop c dx dy (?X j) (?Y j) f = ray_loop c dx dy (?X j + dx) (?Y j + dy) ?f"
          by (subst ray_loop.simps) simp
        then have unfold: "ray_loop c dx dy (?X j) (?Y j) f
            = ray_loop c dx dy (?X (Suc j)) (?Y (Suc j)) ?f"
          by (simp only: nxt)
        have "steps_left dx dy (?X j + dx) (?Y j + dy) < d"
          using steps_left_step [OF dir inb] d by simp
        then have less': "steps_left dx dy (?X (Suc j)) (?Y (Suc j)) < d"
          by (simp only: nxt)
        have wf': "wf_board (board ?f)" using wf by simp
        from less.IH [OF less' wf' refl] obtain m where
          all: "Suc j \<le> m
            \<and> ray_loop c dx dy (?X (Suc j)) (?Y (Suc j)) ?f =
              Some (Inr (?f\<lparr>res := res ?f @ map (\<lambda>k. (?X k, ?Y k)) [Suc j..<m]\<rparr>))
            \<and> ray_post (board ?f) c x y dx dy (Suc j) m" ..
        from all have m: "Suc j \<le> m" by (rule conjunct1)
        from all have run: "ray_loop c dx dy (?X (Suc j)) (?Y (Suc j)) ?f =
              Some (Inr (?f\<lparr>res := res ?f @ map (\<lambda>k. (?X k, ?Y k)) [Suc j..<m]\<rparr>))"
          by (rule conjunct1 [OF conjunct2])
        from all have post: "ray_post (board ?f) c x y dx dy (Suc j) m"
          by (rule conjunct2 [OF conjunct2])
        from m have upt: "[j..<m] = j # [Suc j..<m]" by (simp add: upt_conv_Cons)
        have run': "ray_loop c dx dy (?X j) (?Y j) f =
            Some (Inr (f\<lparr>res := res f @ map (\<lambda>k. (?X k, ?Y k)) [j..<m]\<rparr>))"
          unfolding unfold run upt by (simp add: append_res_def)
        have "ray_post (board f) c x y dx dy j m"
        proof (rule ray_post_step)
          show "in_bounds (?X j) (?Y j)" by (rule inb)
          show "piece_at (board f) (?X j) (?Y j) = Inr (CHR ''.'')" using t empty by simp
          show "Suc j \<le> m" by (rule m)
          show "ray_post (board f) c x y dx dy (Suc j) m" using post by simp
        qed
        with run' m show ?thesis by (intro exI [of _ m]) simp
      qed
    qed
  qed
qed



section \<open>The move generator returns\<close>

lemma ray_returns:
  assumes "wf_board (board f)" and "(dx, dy) \<in> set (diagonals @ orthogonals)"
  shows "\<exists>f'. ray c x y dx dy f = Some (Inr f') \<and> board f' = board f"
proof -
  from ray_loop_spec [where j = 1 and x = x and y = y and c = c, OF assms(2) assms(1) refl]
  obtain m where "ray_loop c dx dy (x + int 1 * dx) (y + int 1 * dy) f =
      Some (Inr (f\<lparr>res := res f @ map (\<lambda>k. (x + int k * dx, y + int k * dy)) [1..<m]\<rparr>))"
    by (elim exE conjE)
  then show ?thesis by (simp add: ray_def)
qed

lemma rays_returns:
  "wf_board (board f) \<Longrightarrow> set ds \<subseteq> set (diagonals @ orthogonals) \<Longrightarrow>
   \<exists>f'. rays c x y ds f = Some (Inr f') \<and> board f' = board f"
proof (induction ds arbitrary: f)
  case Nil
  then show ?case by simp
next
  case (Cons d ds)
  obtain dx dy where d: "d = (dx, dy)" by (cases d)
  with Cons.prems have dir: "(dx, dy) \<in> set (diagonals @ orthogonals)" by simp
  from ray_returns [OF Cons.prems(1) dir] obtain f1 where
    f1: "ray c x y dx dy f = Some (Inr f1)" "board f1 = board f" by blast
  with Cons.prems have "wf_board (board f1)" "set ds \<subseteq> set (diagonals @ orthogonals)"
    by simp_all
  from Cons.IH [OF this] f1 show ?case by (simp add: d)
qed

lemma add_returns:
  "wf_board (board f) \<Longrightarrow> \<exists>r f'. add c nx ny f = Inr (r, f') \<and> board f' = board f"
  by (auto simp: add_def piece_at_in_bounds)

lemma adds_returns:
  "wf_board (board f) \<Longrightarrow> \<exists>f'. adds c x y ds f = Inr f' \<and> board f' = board f"
proof (induction ds arbitrary: f)
  case Nil
  then show ?case by simp
next
  case (Cons d ds)
  obtain dx dy where d: "d = (dx, dy)" by (cases d)
  from add_returns [OF Cons.prems] obtain r f1 where
    f1: "add c (x + dx) (y + dy) f = Inr (r, f1)" "board f1 = board f" by blast
  with Cons.prems have "wf_board (board f1)" by simp
  from Cons.IH [OF this] f1 show ?case by (simp add: d)
qed

lemma pawn_forward_returns:
  "wf_board (board f) \<Longrightarrow> \<exists>f'. pawn_forward c x y f = Inr f' \<and> board f' = board f"
  by (auto simp: pawn_forward_def Let_def piece_at_wf in_bounds_def)

lemma pawn_capture_returns:
  "wf_board (board f) \<Longrightarrow> \<exists>f'. pawn_capture c nx ny f = Inr f' \<and> board f' = board f"
  by (simp add: pawn_capture_def piece_at_in_bounds)

lemma pawn_captures_returns:
  "wf_board (board f) \<Longrightarrow> \<exists>f'. pawn_captures c x y dxs f = Inr f' \<and> board f' = board f"
proof (induction dxs arbitrary: f)
  case Nil
  then show ?case by simp
next
  case (Cons dx dxs)
  from pawn_capture_returns [OF Cons.prems] obtain f1 where
    f1: "pawn_capture c (x + dx) (y + (if c = W then - 1 else 1)) f = Inr f1" "board f1 = board f"
    by blast
  with Cons.prems have "wf_board (board f1)" by simp
  from Cons.IH [OF this] f1 show ?case by simp
qed

lemma moves_for_returns:
  assumes wf: "wf_board b" and piece: "piece_at b x y = Inr piece"
  shows "\<exists>ms. moves_for b x y = Some (Inr (ms, b))"
proof (cases "color piece")
  case None
  with piece show ?thesis by (simp add: moves_for_empty)
next
  case (Some c)
  define f0 where "f0 = \<lparr>board = b, res = []\<rparr>"
  have wf0: "wf_board (board f0)" and b0: "board f0 = b"
    using wf by (simp_all add: f0_def)
  define p where "p = lower_chr piece"
  show ?thesis
  proof (cases "p = CHR ''p''")
    case True
    from pawn_forward_returns [OF wf0] obtain f1 where
      f1: "pawn_forward c x y f0 = Inr f1" "board f1 = board f0" by blast
    then have "wf_board (board f1)" using wf0 by simp
    from pawn_captures_returns [OF this] obtain f2 where
      f2: "pawn_captures c x y [- 1, 1] f1 = Inr f2" "board f2 = board f1" by blast
    with f1 b0 True piece Some show ?thesis
      by (simp add: moves_for_def ret_def f0_def [symmetric] p_def [symmetric])
  next
    case notp: False
    show ?thesis
    proof (cases "p = CHR ''n''")
      case True
      from adds_returns [OF wf0] obtain f1 where
        f1: "adds c x y knight_offsets f0 = Inr f1" "board f1 = board f0" by blast
      with b0 True notp piece Some show ?thesis
        by (simp add: moves_for_def ret_def f0_def [symmetric] p_def [symmetric])
    next
      case notn: False
      have "\<exists>f1. (if p = CHR ''b'' \<or> p = CHR ''q'' then rays c x y diagonals f0 else Some (Inr f0))
              = Some (Inr f1) \<and> board f1 = board f0"
        using rays_returns [OF wf0, of diagonals] by simp
      then obtain f1 where
        s1: "(if p = CHR ''b'' \<or> p = CHR ''q'' then rays c x y diagonals f0 else Some (Inr f0))
              = Some (Inr f1)" and b1: "board f1 = board f0" by blast
      then have wf1: "wf_board (board f1)" using wf0 by simp
      have "\<exists>f2. (if p = CHR ''r'' \<or> p = CHR ''q'' then rays c x y orthogonals f1 else Some (Inr f1))
              = Some (Inr f2) \<and> board f2 = board f1"
        using rays_returns [OF wf1, of orthogonals] by simp
      then obtain f2 where
        s2: "(if p = CHR ''r'' \<or> p = CHR ''q'' then rays c x y orthogonals f1 else Some (Inr f1))
              = Some (Inr f2)" and b2: "board f2 = board f1" by blast
      then have wf2: "wf_board (board f2)" using wf1 by simp
      have "\<exists>f3. (if p = CHR ''k'' then adds c x y king_offsets f2 else Inr f2) = Inr f3
              \<and> board f3 = board f2"
        using adds_returns [OF wf2] by simp
      then obtain f3 where
        s3: "(if p = CHR ''k'' then adds c x y king_offsets f2 else Inr f2) = Inr f3"
        and b3: "board f3 = board f2" by blast
      have "moves_for b x y = ret f3"
        using piece Some notp notn s1 s2 s3 unfolding p_def f0_def
        by (simp add: moves_for_def Let_def split del: if_split)
      with b0 b1 b2 b3 show ?thesis by (simp add: ret_def)
    qed
  qed
qed

lemma moves_for_returns_in_bounds:
  "wf_board b \<Longrightarrow> in_bounds x y \<Longrightarrow> \<exists>ms. moves_for b x y = Some (Inr (ms, b))"
  using moves_for_returns piece_at_in_bounds by blast

text \<open>
  Claim C2. On a board of eight rows of eight cells and a square of the board,
  \<open>moves_for\<close> returns a list. Whenever it returns a list, on any board and for any
  coordinates, every destination in it is a square of the board whose cell does not
  have the colour of the piece on the source square.
\<close>

theorem moves_for_never_onto_friend:
  "(wf_board b \<and> in_bounds x y \<longrightarrow> (\<exists>ms. moves_for b x y = Some (Inr (ms, b))))
   \<and> (moves_for b x y = Some (Inr (ms, b')) \<and> piece_at b x y = Inr piece \<and> (tx, ty) \<in> set ms
      \<longrightarrow> in_bounds tx ty \<and> (\<exists>t. piece_at b tx ty = Inr t \<and> color t \<noteq> color piece))"
  using moves_for_returns_in_bounds moves_for_ok(2) by blast

theorem moves_for_never_onto_friend_witness:
  "wf_board new_board \<and> in_bounds 1 7
   \<and> moves_for new_board 1 7 = Some (Inr ([(2, 5), (0, 5)], new_board))
   \<and> piece_at new_board 1 7 = Inr (CHR ''N'') \<and> (2 :: int, 5 :: int) \<in> set [(2, 5), (0, 5)]
   \<and> in_bounds 2 5 \<and> (\<exists>t. piece_at new_board 2 5 = Inr t \<and> color t \<noteq> color (CHR ''N''))"
proof -
  have h1: "wf_board new_board" by (rule wf_new_board)
  have h2: "in_bounds 1 7" by (simp add: in_bounds_def)
  have h3: "moves_for new_board 1 7 = Some (Inr ([(2, 5), (0, 5)], new_board))" by code_simp
  have h4: "piece_at new_board 1 7 = Inr (CHR ''N'')" by code_simp
  have h5: "(2, 5) \<in> set [(2, 5), (0 :: int, 5 :: int)]" by simp
  from moves_for_never_onto_friend
    [of new_board 1 7 "[(2, 5), (0, 5)]" new_board "CHR ''N''" 2 5] h3 h4 h5
  have "in_bounds 2 5 \<and> (\<exists>t. piece_at new_board 2 5 = Inr t \<and> color t \<noteq> color (CHR ''N''))"
    by blast
  with h1 h2 h3 h4 h5 show ?thesis by blast
qed

text \<open>
  Claim C9. Whenever \<open>moves_for\<close> returns its list, the board it leaves is the board it
  was given, so a second call with the same arguments returns the same list and the
  same board. On a board of eight rows of eight cells and a square of the board it
  does return.
\<close>

theorem moves_for_leaves_board:
  "(moves_for b x y = Some (Inr (ms, b')) \<longrightarrow> b' = b \<and> moves_for b' x y = Some (Inr (ms, b')))
   \<and> (wf_board b \<and> in_bounds x y \<longrightarrow> (\<exists>ms. moves_for b x y = Some (Inr (ms, b))))"
  using moves_for_returns_in_bounds moves_for_board by blast

theorem moves_for_leaves_board_witness:
  "wf_board new_board \<and> in_bounds 4 6
   \<and> moves_for new_board 4 6 = Some (Inr ([(4, 5), (4, 4)], new_board))
   \<and> (\<exists>ms. moves_for new_board 4 6 = Some (Inr (ms, new_board)))"
proof -
  have h1: "wf_board new_board" by (rule wf_new_board)
  have h2: "in_bounds 4 6" by (simp add: in_bounds_def)
  have h3: "moves_for new_board 4 6 = Some (Inr ([(4, 5), (4, 4)], new_board))" by code_simp
  from moves_for_leaves_board [of new_board 4 6 "[(4, 5), (4, 4)]" new_board] h1 h2
  have "\<exists>ms. moves_for new_board 4 6 = Some (Inr (ms, new_board))" by blast
  with h1 h2 h3 show ?thesis by blast
qed

section \<open>The moves of a pawn\<close>

lemma pawn_forward_eq:
  assumes wf: "wf_board (board f)"
  shows "pawn_forward c x y f = Inr (f\<lparr>res := res f @ forward_squares (board f) c x y\<rparr>)"
proof (cases "in_bounds x (y + (if c = W then - 1 else 1))")
  case False
  then show ?thesis by (simp add: pawn_forward_def forward_squares_def Let_def)
next
  case inb: True
  then have one: "piece_at (board f) x (y + (if c = W then - 1 else 1))
      = Inr (board f ! nat (y + (if c = W then - 1 else 1)) ! nat x)"
    by (rule piece_at_in_bounds [OF wf])
  show ?thesis
  proof (cases "y = (if c = W then 6 else 1)")
    case False
    with inb one show ?thesis
      by (simp add: pawn_forward_def forward_squares_def Let_def append_res_def)
  next
    case True
    with inb have "in_bounds x (y + 2 * (if c = W then - 1 else 1))"
      by (auto simp: in_bounds_def)
    then have two: "piece_at (board f) x (y + 2 * (if c = W then - 1 else 1))
        = Inr (board f ! nat (y + 2 * (if c = W then - 1 else 1)) ! nat x)"
      by (rule piece_at_in_bounds [OF wf])
    from inb one two True show ?thesis
      by (simp add: pawn_forward_def forward_squares_def Let_def append_res_def)
  qed
qed

lemma pawn_capture_eq:
  assumes wf: "wf_board (board f)"
  shows "pawn_capture c nx ny f
         = Inr (f\<lparr>res := res f @ filter (enemy_at (board f) c) [(nx, ny)]\<rparr>)"
  using piece_at_in_bounds [OF wf, of nx ny]
  by (simp add: pawn_capture_def enemy_at_def append_res_def)

lemma pawn_captures_eq:
  assumes wf: "wf_board (board f)"
  shows "pawn_captures c x y [- 1, 1] f
         = Inr (f\<lparr>res := res f @ filter (enemy_at (board f) c)
                  [(x - 1, y + (if c = W then - 1 else 1)), (x + 1, y + (if c = W then - 1 else 1))]\<rparr>)"
proof -
  let ?d = "if c = W then - 1 else 1 :: int"
  let ?f1 = "f\<lparr>res := res f @ filter (enemy_at (board f) c) [(x - 1, y + ?d)]\<rparr>"
  have 1: "pawn_capture c (x + - 1) (y + ?d) f = Inr ?f1"
    using pawn_capture_eq [OF wf, of c "x - 1" "y + ?d"] by simp
  have wf1: "wf_board (board ?f1)" using wf by simp
  have 2: "pawn_capture c (x + 1) (y + ?d) ?f1
      = Inr (?f1\<lparr>res := res ?f1 @ filter (enemy_at (board ?f1) c) [(x + 1, y + ?d)]\<rparr>)"
    by (rule pawn_capture_eq [OF wf1])
  show ?thesis
    by (simp only: pawn_captures.simps 1 2 sum.case) simp
qed

lemma moves_for_pawn:
  assumes wf: "wf_board b" and piece: "piece_at b x y = Inr piece"
    and pawn: "lower_chr piece = CHR ''p''" and c: "color piece = Some c"
  shows "moves_for b x y =
           Some (Inr (forward_squares b c x y
                        @ filter (enemy_at b c)
                            [(x - 1, y + (if c = W then - 1 else 1)),
                             (x + 1, y + (if c = W then - 1 else 1))], b))"
proof -
  let ?f0 = "\<lparr>board = b, res = []\<rparr>"
  have wf0: "wf_board (board ?f0)" using wf by simp
  let ?f1 = "?f0\<lparr>res := res ?f0 @ forward_squares (board ?f0) c x y\<rparr>"
  have 1: "pawn_forward c x y ?f0 = Inr ?f1" by (rule pawn_forward_eq [OF wf0])
  have wf1: "wf_board (board ?f1)" using wf by simp
  note 2 = pawn_captures_eq [OF wf1, of c x y]
  have mf: "moves_for b x y =
      (case pawn_forward c x y ?f0 of
         Inl e \<Rightarrow> Some (Inl e)
       | Inr f1 \<Rightarrow>
           (case pawn_captures c x y [- 1, 1] f1 of
              Inl e \<Rightarrow> Some (Inl e)
            | Inr f2 \<Rightarrow> ret f2))"
    using piece pawn c by (simp add: moves_for_def Let_def del: pawn_captures.simps)
  show ?thesis
    unfolding mf 1 sum.case 2 by (simp add: ret_def)
qed

lemma enemy_at_alt:
  "enemy_at b c =
     (\<lambda>(nx, ny). in_bounds nx ny
        \<and> (\<exists>t. piece_at b nx ny = Inr t \<and> t \<noteq> CHR ''.'' \<and> color t \<noteq> Some c))"
  by (auto simp: enemy_at_def fun_eq_iff split: sum.splits)

lemma forward_squares_start:
  assumes "d = (if c = W then - 1 else 1)" and "y = (if c = W then 6 else 1)"
    and "in_bounds x y" and "piece_at b x (y + d) = Inr (CHR ''.'')"
    and "piece_at b x (y + 2 * d) = Inr (CHR ''.'')"
  shows "forward_squares b c x y = [(x, y + d), (x, y + 2 * d)]"
  using assms by (cases c) (auto simp: forward_squares_def in_bounds_def)

lemma forward_squares_later:
  "y \<noteq> (if c = W then 6 else 1) \<Longrightarrow> length (forward_squares b c x y) \<le> 1"
  by (simp add: forward_squares_def Let_def)

text \<open>
  Claim C8. For a pawn of colour \<open>c\<close> on a square of a board of eight rows of eight
  cells, with \<open>d\<close> its direction and \<open>start_row\<close> its starting row, \<open>moves_for\<close> returns
  a list \<open>ms\<close>. The captures \<open>caps\<close> are those of the two squares diagonally ahead that
  are on the board and hold a piece of the other colour, at most two. On the starting
  row with the two squares ahead empty, \<open>ms\<close> is the two squares straight ahead
  followed by the captures. Off the starting row, at most one square of \<open>ms\<close> is in
  the pawn's own column.
\<close>

theorem pawn_destinations:
  assumes "wf_board b" and "in_bounds x y" and "piece_at b x y = Inr piece"
    and "lower_chr piece = CHR ''p''" and "color piece = Some c"
    and "d = (if c = W then - 1 else 1)" and "start_row = (if c = W then 6 else 1)"
  shows "\<exists>ms caps. moves_for b x y = Some (Inr (ms, b))
     \<and> caps = filter (\<lambda>(nx, ny). in_bounds nx ny
                  \<and> (\<exists>t. piece_at b nx ny = Inr t \<and> t \<noteq> CHR ''.'' \<and> color t \<noteq> Some c))
                [(x - 1, y + d), (x + 1, y + d)]
     \<and> length caps \<le> 2
     \<and> (y = start_row \<and> piece_at b x (y + d) = Inr (CHR ''.'')
          \<and> piece_at b x (y + 2 * d) = Inr (CHR ''.'')
        \<longrightarrow> ms = [(x, y + d), (x, y + 2 * d)] @ caps)
     \<and> (y \<noteq> start_row \<longrightarrow> length (filter (\<lambda>(tx, ty). tx = x) ms) \<le> 1)"
proof -
  define caps where "caps = filter (enemy_at b c) [(x - 1, y + d), (x + 1, y + d)]"
  define ms where "ms = forward_squares b c x y @ caps"
  have run: "moves_for b x y = Some (Inr (ms, b))"
    unfolding ms_def caps_def assms(6) by (rule moves_for_pawn [OF assms(1,3,4,5)])
  have caps: "caps = filter (\<lambda>(nx, ny). in_bounds nx ny
                  \<and> (\<exists>t. piece_at b nx ny = Inr t \<and> t \<noteq> CHR ''.'' \<and> color t \<noteq> Some c))
                [(x - 1, y + d), (x + 1, y + d)]"
    unfolding caps_def enemy_at_alt ..
  have len: "length caps \<le> 2"
    unfolding caps_def by (rule order_trans [OF length_filter_le]) simp
  have start: "ms = [(x, y + d), (x, y + 2 * d)] @ caps"
    if h: "y = start_row \<and> piece_at b x (y + d) = Inr (CHR ''.'')
          \<and> piece_at b x (y + 2 * d) = Inr (CHR ''.'')"
  proof -
    from h assms(7) have row: "y = (if c = W then 6 else 1)" by simp
    from h have e1: "piece_at b x (y + d) = Inr (CHR ''.'')" by blast
    from h have e2: "piece_at b x (y + 2 * d) = Inr (CHR ''.'')" by blast
    from forward_squares_start [OF assms(6) row assms(2) e1 e2]
    show ?thesis unfolding ms_def by simp
  qed
  have column: "filter (\<lambda>(tx, ty). tx = x) caps = []"
    unfolding caps_def by (simp add: filter_empty_conv)
  have later: "length (filter (\<lambda>(tx, ty). tx = x) ms) \<le> 1" if "y \<noteq> start_row"
  proof -
    have "length (filter (\<lambda>(tx, ty). tx = x) (forward_squares b c x y))
        \<le> length (forward_squares b c x y)"
      by (rule length_filter_le)
    also have "\<dots> \<le> 1"
      using that unfolding assms(7) by (rule forward_squares_later)
    finally show ?thesis unfolding ms_def by (simp add: column)
  qed
  from run caps len start later show ?thesis by blast
qed

theorem pawn_destinations_witness:
  "wf_board new_board \<and> in_bounds 4 6 \<and> piece_at new_board 4 6 = Inr (CHR ''P'')
   \<and> lower_chr (CHR ''P'') = CHR ''p'' \<and> color (CHR ''P'') = Some W
   \<and> moves_for new_board 4 6 = Some (Inr ([(4, 5), (4, 4)], new_board))
   \<and> (\<exists>ms caps. moves_for new_board 4 6 = Some (Inr (ms, new_board))
         \<and> length caps \<le> 2 \<and> ms = [(4, 6 + - 1), (4, 6 + 2 * - 1)] @ caps)"
proof -
  have h1: "wf_board new_board" by (rule wf_new_board)
  have h2: "in_bounds 4 6" by (simp add: in_bounds_def)
  have h3: "piece_at new_board 4 6 = Inr (CHR ''P'')" by code_simp
  have h4: "lower_chr (CHR ''P'') = CHR ''p''" by code_simp
  have h5: "color (CHR ''P'') = Some W" by code_simp
  have h6: "(- 1 :: int) = (if W = W then - 1 else 1)" by simp
  have h7: "(6 :: int) = (if W = W then 6 else 1)" by simp
  have e1: "piece_at new_board 4 (6 + - 1) = Inr (CHR ''.'')" by code_simp
  have e2: "piece_at new_board 4 (6 + 2 * - 1) = Inr (CHR ''.'')" by code_simp
  have v: "moves_for new_board 4 6 = Some (Inr ([(4, 5), (4, 4)], new_board))" by code_simp
  from pawn_destinations [OF h1 h2 h3 h4 h5 h6 h7] e1 e2
  have "\<exists>ms caps. moves_for new_board 4 6 = Some (Inr (ms, new_board))
         \<and> length caps \<le> 2 \<and> ms = [(4, 6 + - 1), (4, 6 + 2 * - 1)] @ caps"
    by blast
  with h1 h2 h3 h4 h5 v show ?thesis by blast
qed

section \<open>The check detector\<close>






lemma other_neq [simp]: "other sd \<noteq> sd"
  by (cases sd) (simp_all add: other_def)





section \<open>One round of the loop\<close>









lemma py_store_length:
  "py_store xs i v = Inr xs' \<Longrightarrow> length xs' = length xs"
  by (auto simp: py_store_def split: if_splits)







lemma game_same_board [simp]: "g\<lparr>gboard := gboard g\<rparr> = g"
  by simp





section \<open>Promotion\<close>

lemma color_queen_of [simp]: "color (queen_of t) = Some t"
  by (cases t) (simp_all add: queen_of_def color_def isupper_def)

lemma lower_chr_queen_of [simp]: "lower_chr (queen_of t) = CHR ''q''"
proof -
  have "lower_chr (CHR ''Q'') = CHR ''q''" and "lower_chr (CHR ''q'') = CHR ''q''"
    by code_simp+
  then show ?thesis by (cases t) (simp_all add: queen_of_def)
qed



end
